theory Spec2Isabelle
  imports Complex_Main "HOL-Library.Word" "HOL-Library.Signed_Division"
begin

section \<open>Cube moves, move sequences and the binomial helper of cubecommon.cpp\<close>

subsection \<open>Data model\<close>

text \<open>
  Modelled from the spec: the enumeration \<open>CubeMove\<close> is declared in cubecommon.h, which
  is not among the sources. Section 3 of the specification fixes 18 variants with
  contiguous ordinals starting at 0, grouped in six triples by face (Up, Front, Right,
  Back, Left, Down), each triple ordered clockwise, counter-clockwise, half-turn; the
  comments of the table in \<open>InvertedMove\<close> list the names in the same order. A C++
  enumeration value is an integer that may lie outside the declared enumerators, so a
  move is its ordinal.
\<close>

type_synonym CubeMove = int

definition MOVE_U :: CubeMove where "MOVE_U = 0"
definition MOVE_Up :: CubeMove where "MOVE_Up = 1"
definition MOVE_U2 :: CubeMove where "MOVE_U2 = 2"
definition MOVE_F :: CubeMove where "MOVE_F = 3"
definition MOVE_Fp :: CubeMove where "MOVE_Fp = 4"
definition MOVE_F2 :: CubeMove where "MOVE_F2 = 5"
definition MOVE_R :: CubeMove where "MOVE_R = 6"
definition MOVE_Rp :: CubeMove where "MOVE_Rp = 7"
definition MOVE_R2 :: CubeMove where "MOVE_R2 = 8"
definition MOVE_B :: CubeMove where "MOVE_B = 9"
definition MOVE_Bp :: CubeMove where "MOVE_Bp = 10"
definition MOVE_B2 :: CubeMove where "MOVE_B2 = 11"
definition MOVE_L :: CubeMove where "MOVE_L = 12"
definition MOVE_Lp :: CubeMove where "MOVE_Lp = 13"
definition MOVE_L2 :: CubeMove where "MOVE_L2 = 14"
definition MOVE_D :: CubeMove where "MOVE_D = 15"
definition MOVE_Dp :: CubeMove where "MOVE_Dp = 16"
definition MOVE_D2 :: CubeMove where "MOVE_D2 = 17"

lemmas MOVE_defs =
  MOVE_U_def MOVE_Up_def MOVE_U2_def MOVE_F_def MOVE_Fp_def MOVE_F2_def
  MOVE_R_def MOVE_Rp_def MOVE_R2_def MOVE_B_def MOVE_Bp_def MOVE_B2_def
  MOVE_L_def MOVE_Lp_def MOVE_L2_def MOVE_D_def MOVE_Dp_def MOVE_D2_def

text \<open>The 18 valid moves are the ordinals of the enumerators.\<close>

definition valid_move :: "CubeMove \<Rightarrow> bool" where
  "valid_move move \<longleftrightarrow> MOVE_U \<le> move \<and> move \<le> MOVE_D2"

text \<open>
  Modelled from the spec: face and direction of a move, read off the ordinal by the
  grouping of section 3 (triples by face, each triple clockwise, counter-clockwise,
  half-turn).
\<close>

datatype Face = Up | Front | Right | Back | Left | Down

datatype Turn = Clockwise | CounterClockwise | HalfTurn

definition faces :: "Face list" where
  "faces = [Up, Front, Right, Back, Left, Down]"

definition turns :: "Turn list" where
  "turns = [Clockwise, CounterClockwise, HalfTurn]"

definition face_of :: "CubeMove \<Rightarrow> Face" where
  "face_of move = faces ! nat (move div 3)"

definition turn_of :: "CubeMove \<Rightarrow> Turn" where
  "turn_of move = turns ! nat (move mod 3)"

fun face_letter :: "Face \<Rightarrow> char" where
  "face_letter Up = CHR ''U''"
| "face_letter Front = CHR ''F''"
| "face_letter Right = CHR ''R''"
| "face_letter Back = CHR ''B''"
| "face_letter Left = CHR ''L''"
| "face_letter Down = CHR ''D''"

fun turn_suffix :: "Turn \<Rightarrow> string" where
  "turn_suffix Clockwise = []"
| "turn_suffix CounterClockwise = [CHR 0x27]"
| "turn_suffix HalfTurn = ''2''"

fun opposite_turn :: "Turn \<Rightarrow> Turn" where
  "opposite_turn Clockwise = CounterClockwise"
| "opposite_turn CounterClockwise = Clockwise"
| "opposite_turn HalfTurn = HalfTurn"

text \<open>The class \<open>CubeMoveSequence\<close> holds one vector of moves.\<close>

record CubeMoveSequence =
  moves :: "CubeMove list"

text \<open>
  What the code can do besides returning: read the inversion table out of bounds, or
  trap in an integer division.
\<close>

datatype fault = OutOfBounds | DivideByZero | DivideOverflow

subsection \<open>Move notation\<close>

text \<open>\<open>CubeMoveSequence::MoveToString\<close>: a switch with a default branch.\<close>

definition MoveToString :: "CubeMove \<Rightarrow> string" where
  "MoveToString move =
     (if move = MOVE_U then ''U''
      else if move = MOVE_Up then ''U'' @ [CHR 0x27]
      else if move = MOVE_U2 then ''U2''
      else if move = MOVE_F then ''F''
      else if move = MOVE_Fp then ''F'' @ [CHR 0x27]
      else if move = MOVE_F2 then ''F2''
      else if move = MOVE_R then ''R''
      else if move = MOVE_Rp then ''R'' @ [CHR 0x27]
      else if move = MOVE_R2 then ''R2''
      else if move = MOVE_B then ''B''
      else if move = MOVE_Bp then ''B'' @ [CHR 0x27]
      else if move = MOVE_B2 then ''B2''
      else if move = MOVE_L then ''L''
      else if move = MOVE_Lp then ''L'' @ [CHR 0x27]
      else if move = MOVE_L2 then ''L2''
      else if move = MOVE_D then ''D''
      else if move = MOVE_Dp then ''D'' @ [CHR 0x27]
      else if move = MOVE_D2 then ''D2''
      else [])"

subsection \<open>Move inversion\<close>

text \<open>The static table of \<open>InvertedMove\<close>, \<open>MOVE_D2 + 1\<close> entries.\<close>

definition inverted :: "CubeMove list" where
  "inverted =
     [MOVE_Up, MOVE_U, MOVE_U2,
      MOVE_Fp, MOVE_F, MOVE_F2,
      MOVE_Rp, MOVE_R, MOVE_R2,
      MOVE_Bp, MOVE_B, MOVE_B2,
      MOVE_Lp, MOVE_L, MOVE_L2,
      MOVE_Dp, MOVE_D, MOVE_D2]"

text \<open>
  \<open>CubeMoveSequence::InvertedMove\<close> indexes the table with the move, unchecked; an
  index outside the table is the fault \<open>OutOfBounds\<close>.
\<close>

definition InvertedMove :: "CubeMove \<Rightarrow> fault + CubeMove" where
  "InvertedMove move =
     (if 0 \<le> move \<and> move < MOVE_D2 + 1 then Inr (inverted ! nat move)
      else Inl OutOfBounds)"

text \<open>
  \<open>CubeMoveSequence::Inverted\<close>: the loop walks the vector from its last element to
  its first (the first argument is what the reverse iterator has still to visit) and
  appends the inverse of each move to a fresh sequence.
\<close>

fun Inverted_loop :: "CubeMove list \<Rightarrow> CubeMoveSequence \<Rightarrow> fault + CubeMoveSequence" where
  "Inverted_loop [] result = Inr result"
| "Inverted_loop (i # rest) result =
     (case InvertedMove i of
        Inl e \<Rightarrow> Inl e
      | Inr m \<Rightarrow> Inverted_loop rest (result\<lparr>moves := moves result @ [m]\<rparr>))"

definition Inverted :: "CubeMoveSequence \<Rightarrow> fault + CubeMoveSequence" where
  "Inverted this = Inverted_loop (rev (moves this)) \<lparr>moves = []\<rparr>"

subsection \<open>Random move\<close>

text \<open>
  \<open>RandomSource\<close> is an injected object with one method \<open>Next(bound)\<close>; it is a state
  \<open>'s\<close> together with the function \<open>next\<close> that maps a bound and the state to the
  value drawn and the state afterwards. \<open>CubeMoveSequence::RandomMove\<close> casts the value
  drawn for the bound \<open>MOVE_D2 + 1\<close> to a move.
\<close>

definition RandomMove :: "(int \<Rightarrow> 's \<Rightarrow> int \<times> 's) \<Rightarrow> 's \<Rightarrow> CubeMove \<times> 's" where
  "RandomMove next rng = (let (v, rng') = next (MOVE_D2 + 1) rng in (v, rng'))"

text \<open>
  A source that records the bound of every request beside the state of the source it
  wraps; it observes how often and with what bound \<open>Next\<close> is called.
\<close>

definition recording :: "(int \<Rightarrow> 's \<Rightarrow> int \<times> 's) \<Rightarrow> int \<Rightarrow> 's \<times> int list \<Rightarrow> int \<times> ('s \<times> int list)" where
  "recording next bound st =
     (let (v, rng') = next bound (fst st) in (v, (rng', snd st @ [bound])))"

text \<open>A deterministic source with a fixed seed: a linear congruential generator.\<close>

definition lcg_next :: "int \<Rightarrow> int \<Rightarrow> int \<times> int" where
  "lcg_next bound seed =
     (let seed' = (seed * 1103515245 + 12345) mod 2147483648 in (seed' mod bound, seed'))"

subsection \<open>Sequence rendering\<close>

text \<open>
  \<open>CubeMoveSequence::ToString\<close>: the separator is appended when the text accumulated so
  far is not empty, then the token of the move.
\<close>

fun ToString_loop :: "CubeMove list \<Rightarrow> string \<Rightarrow> string" where
  "ToString_loop [] result = result"
| "ToString_loop (i # rest) result =
     ToString_loop rest
       ((if length result > 0 then result @ '' '' else result) @ MoveToString i)"

definition ToString :: "CubeMoveSequence \<Rightarrow> string" where
  "ToString this = ToString_loop (moves this) []"

text \<open>
  The specification's wording of the rendering: the tokens joined by a single space, in
  input order.
\<close>

fun join_space :: "string list \<Rightarrow> string" where
  "join_space [] = []"
| "join_space [t] = t"
| "join_space (t # ts) = t @ '' '' @ join_space ts"

subsection \<open>Binomial coefficient\<close>

text \<open>
  \<open>NChooseK\<close> computes on \<open>int\<close>, 32 bits wide. C++ leaves signed overflow undefined;
  the model takes what two's-complement hardware does: multiplication, subtraction,
  increment and decrement wrap around. Comparison and division are signed, and division
  truncates towards zero. A division by zero, and the division of the least value by
  \<open>-1\<close>, trap.
\<close>

type_synonym int32 = "32 word"

definition INT_MIN :: int32 where
  "INT_MIN = - 2147483648"

definition div_int32 :: "int32 \<Rightarrow> int32 \<Rightarrow> fault + int32" where
  "div_int32 a b =
     (if b = 0 then Inl DivideByZero
      else if a = INT_MIN \<and> b = - 1 then Inl DivideOverflow
      else Inr (word_of_int (sint a sdiv sint b)))"

text \<open>
  The body of the loop on the state \<open>(i, result, denom)\<close>: \<open>result *= i\<close>, then
  \<open>result /= denom++\<close>, then the \<open>i--\<close> of the loop header.
\<close>

definition NChooseK_body :: "int32 \<Rightarrow> int32 \<Rightarrow> int32 \<Rightarrow> fault + int32 \<times> int32 \<times> int32" where
  "NChooseK_body i result denom =
     (case div_int32 (result * i) denom of
        Inl e \<Rightarrow> Inl e
      | Inr q \<Rightarrow> Inr (i - 1, q, denom + 1))"

text \<open>
  The loop \<open>for (int i = n; i > (n - k); i--)\<close>, with \<open>bound\<close> the value of \<open>n - k\<close>,
  which the loop does not change.
\<close>

function NChooseK_loop :: "int32 \<Rightarrow> int32 \<Rightarrow> int32 \<Rightarrow> int32 \<Rightarrow> fault + int32" where
  "NChooseK_loop bound i result denom =
     (if bound <s i then
        (case NChooseK_body i result denom of
           Inl e \<Rightarrow> Inl e
         | Inr (i', result', denom') \<Rightarrow> NChooseK_loop bound i' result' denom')
      else Inr result)"
  by pat_completeness auto
termination
proof (relation "measure (\<lambda>(bound, i, result, denom). nat (sint i - sint bound))", goal_cases)
  case 1
  show ?case by simp
next
  case (2 bound i result denom st i' rest result' denom')
  then have less: "sint bound < sint i" and i': "i' = i - 1"
    by (auto simp: word_sless_alt NChooseK_body_def split: sum.splits)
  have "- 2147483648 \<le> sint bound"
    using sint_ge [of bound] by simp
  moreover have "sint i < 2147483648"
    using sint_lt [of i] by simp
  ultimately have "sint (i - 1) = sint i - 1"
    using less by (simp add: sint_word_ariths signed_take_bit_int_eq_self)
  with less i' show ?case
    by simp
qed

declare NChooseK_loop.simps [simp del]

text \<open>
  The state of the loop after its first \<open>t\<close> iterations (or at its exit, when it
  leaves earlier).
\<close>

fun NChooseK_run :: "nat \<Rightarrow> int32 \<Rightarrow> int32 \<times> int32 \<times> int32 \<Rightarrow> fault + int32 \<times> int32 \<times> int32" where
  "NChooseK_run 0 bound st = Inr st"
| "NChooseK_run (Suc t) bound (i, result, denom) =
     (if bound <s i then
        (case NChooseK_body i result denom of
           Inl e \<Rightarrow> Inl e
         | Inr st' \<Rightarrow> NChooseK_run t bound st')
      else Inr (i, result, denom))"

text \<open>The value of \<open>k\<close> after \<open>if (k > (n / 2)) k = n - k;\<close>.\<close>

definition symmetric_k :: "int32 \<Rightarrow> int32 \<Rightarrow> int32" where
  "symmetric_k n k = (if word_of_int (sint n sdiv 2) <s k then n - k else k)"

definition NChooseK :: "int32 \<Rightarrow> int32 \<Rightarrow> fault + int32" where
  "NChooseK n k =
     (if n <s k then Inr 0
      else
        let k = symmetric_k n k
        in NChooseK_loop (n - k) n 1 1)"

text \<open>
  The same function under the rule of the C++ standard, which gives a signed operation
  no result when the mathematical value does not fit the type: every multiplication,
  division, increment, decrement and subtraction is checked, and the first one that does
  not fit ends the call as undefined. The subtraction in \<open>k = n - k\<close> needs no check: it
  is reached only with \<open>n / 2 < k \<le> n\<close>, where it fits.
\<close>

datatype undefined_behaviour = SignedOverflow | DivisionByZero

definition checked_int32 :: "int \<Rightarrow> undefined_behaviour + int32" where
  "checked_int32 x =
     (if - 2147483648 \<le> x \<and> x \<le> 2147483647 then Inr (word_of_int x)
      else Inl SignedOverflow)"

definition NChooseK_body_checked ::
    "int32 \<Rightarrow> int32 \<Rightarrow> int32 \<Rightarrow> undefined_behaviour + int32 \<times> int32 \<times> int32" where
  "NChooseK_body_checked i result denom =
     (case checked_int32 (sint result * sint i) of
        Inl e \<Rightarrow> Inl e
      | Inr product \<Rightarrow>
          if denom = 0 then Inl DivisionByZero
          else
            (case checked_int32 (sint product sdiv sint denom) of
               Inl e \<Rightarrow> Inl e
             | Inr q \<Rightarrow>
                 (case checked_int32 (sint denom + 1) of
                    Inl e \<Rightarrow> Inl e
                  | Inr denom' \<Rightarrow>
                      (case checked_int32 (sint i - 1) of
                         Inl e \<Rightarrow> Inl e
                       | Inr i' \<Rightarrow> Inr (i', q, denom')))))"

function NChooseK_loop_checked ::
    "int32 \<Rightarrow> int32 \<Rightarrow> int32 \<Rightarrow> int32 \<Rightarrow> undefined_behaviour + int32" where
  "NChooseK_loop_checked bound i result denom =
     (if bound <s i then
        (case NChooseK_body_checked i result denom of
           Inl e \<Rightarrow> Inl e
         | Inr (i', result', denom') \<Rightarrow> NChooseK_loop_checked bound i' result' denom')
      else Inr result)"
  by pat_completeness auto
termination
proof (relation "measure (\<lambda>(bound, i, result, denom). nat (sint i - sint bound))", goal_cases)
  case 1
  show ?case by simp
next
  case (2 bound i result denom st i' rest result' denom')
  then have less: "sint bound < sint i" and "checked_int32 (sint i - 1) = Inr i'"
    by (auto simp: word_sless_alt NChooseK_body_checked_def split: sum.splits if_splits)
  then have i': "i' = i - 1"
    by (auto simp: checked_int32_def split: if_splits)
  have "- 2147483648 \<le> sint bound"
    using sint_ge [of bound] by simp
  moreover have "sint i < 2147483648"
    using sint_lt [of i] by simp
  ultimately have "sint (i - 1) = sint i - 1"
    using less by (simp add: sint_word_ariths signed_take_bit_int_eq_self)
  with less i' show ?case
    by simp
qed

declare NChooseK_loop_checked.simps [simp del]

definition NChooseK_checked :: "int32 \<Rightarrow> int32 \<Rightarrow> undefined_behaviour + int32" where
  "NChooseK_checked n k =
     (if n <s k then Inr 0
      else
        let k = symmetric_k n k
        in (case checked_int32 (sint n - sint k) of
              Inl e \<Rightarrow> Inl e
            | Inr bound \<Rightarrow> NChooseK_loop_checked bound n 1 1))"

section \<open>Move notation and move inversion\<close>

lemma valid_move_cases:
  "valid_move move \<longleftrightarrow>
     move = MOVE_U \<or> move = MOVE_Up \<or> move = MOVE_U2 \<or>
     move = MOVE_F \<or> move = MOVE_Fp \<or> move = MOVE_F2 \<or>
     move = MOVE_R \<or> move = MOVE_Rp \<or> move = MOVE_R2 \<or>
     move = MOVE_B \<or> move = MOVE_Bp \<or> move = MOVE_B2 \<or>
     move = MOVE_L \<or> move = MOVE_Lp \<or> move = MOVE_L2 \<or>
     move = MOVE_D \<or> move = MOVE_Dp \<or> move = MOVE_D2"
  unfolding valid_move_def MOVE_defs by arith

lemma MoveToString_valid:
  "valid_move move \<Longrightarrow>
   MoveToString move = face_letter (face_of move) # turn_suffix (turn_of move)"
  unfolding valid_move_cases
  by (elim disjE; simp add: MoveToString_def MOVE_defs face_of_def turn_of_def faces_def turns_def)

lemma MoveToString_invalid: "\<not> valid_move move \<Longrightarrow> MoveToString move = []"
  unfolding valid_move_cases by (simp add: MoveToString_def)

text \<open>
  Claim C6. For each of the 18 valid moves \<open>MoveToString\<close> returns a non-empty token:
  the letter of the move's face followed by nothing for a clockwise quarter-turn, by an
  apostrophe for a counter-clockwise quarter-turn, by \<open>2\<close> for a half-turn. For every
  value outside the 18 valid moves it returns the empty string.
\<close>

theorem MoveToString_token:
  "(valid_move move \<longrightarrow>
      MoveToString move = face_letter (face_of move) # turn_suffix (turn_of move) \<and>
      MoveToString move \<noteq> []) \<and>
   (\<not> valid_move move \<longrightarrow> MoveToString move = [])"
  using MoveToString_valid [of move] MoveToString_invalid [of move] by simp

text \<open>
  The token of \<open>MOVE_Rp\<close>, and the empty string for the values 18 and -1.
\<close>

theorem MoveToString_token_witness:
  "valid_move MOVE_Rp \<and> MoveToString MOVE_Rp = [CHR ''R'', CHR 0x27] \<and>
   \<not> valid_move 18 \<and> MoveToString 18 = [] \<and> \<not> valid_move (- 1) \<and> MoveToString (- 1) = []"
  using MoveToString_token [of MOVE_Rp] MoveToString_token [of 18] MoveToString_token [of "- 1"]
  by (simp add: valid_move_def MOVE_defs face_of_def turn_of_def faces_def turns_def)

text \<open>
  Claim C4. The table of \<open>InvertedMove\<close> has 18 entries and is indexed by the move.
  For each of the 18 valid moves the entry is a valid move of the same face: the
  counter-clockwise quarter-turn for a clockwise one and the reverse, the half-turn for
  a half-turn. Inverting the entry gives the move back.
\<close>

theorem InvertedMove_table:
  "length inverted = 18 \<and>
   (valid_move move \<longrightarrow>
      (\<exists>m. InvertedMove move = Inr m \<and> m = inverted ! nat move \<and> valid_move m \<and>
           face_of m = face_of move \<and> turn_of m = opposite_turn (turn_of move) \<and>
           InvertedMove m = Inr move))"
proof (intro conjI impI)
  show "length inverted = 18"
    by (simp add: inverted_def)
next
  assume "valid_move move"
  then show "\<exists>m. InvertedMove move = Inr m \<and> m = inverted ! nat move \<and> valid_move m \<and>
           face_of m = face_of move \<and> turn_of m = opposite_turn (turn_of move) \<and>
           InvertedMove m = Inr move"
    unfolding valid_move_cases [of move]
    by (elim disjE; simp add: InvertedMove_def inverted_def valid_move_def MOVE_defs
          face_of_def turn_of_def faces_def turns_def)
qed

text \<open>
  R and R' are inverse to each other, and B2 is its own inverse.
\<close>

theorem InvertedMove_table_witness:
  "valid_move MOVE_R \<and> InvertedMove MOVE_R = Inr MOVE_Rp \<and> InvertedMove MOVE_Rp = Inr MOVE_R \<and>
   face_of MOVE_R = Right \<and> face_of MOVE_Rp = Right \<and>
   turn_of MOVE_R = Clockwise \<and> turn_of MOVE_Rp = CounterClockwise \<and>
   valid_move MOVE_B2 \<and> InvertedMove MOVE_B2 = Inr MOVE_B2 \<and> turn_of MOVE_B2 = HalfTurn"
  using InvertedMove_table [of MOVE_R] InvertedMove_table [of MOVE_B2]
  by (simp add: InvertedMove_def inverted_def valid_move_def MOVE_defs
        face_of_def turn_of_def faces_def turns_def)

section \<open>Sequences: inversion and rendering\<close>

lemma InvertedMove_Inr: "valid_move move \<Longrightarrow> \<exists>m. InvertedMove move = Inr m"
  by (simp add: InvertedMove_def valid_move_def MOVE_defs)

lemma Inverted_loop_valid:
  "\<forall>m \<in> set todo. valid_move m \<Longrightarrow>
   \<exists>r. Inverted_loop todo acc = Inr r \<and>
       map Inr (moves r) = map Inr (moves acc) @ map InvertedMove todo"
proof (induction todo arbitrary: acc)
  case Nil
  then show ?case by simp
next
  case (Cons i rest)
  then obtain m where m: "InvertedMove i = Inr m"
    using InvertedMove_Inr [of i] by auto
  from Cons.prems have "\<forall>m \<in> set rest. valid_move m" by simp
  from Cons.IH [OF this, of "acc\<lparr>moves := moves acc @ [m]\<rparr>"] m
  show ?case by simp
qed

text \<open>
  Claim C3. For a sequence \<open>[m1, ..., mn]\<close> of valid moves \<open>Inverted\<close> returns the
  sequence \<open>[InvertedMove mn, ..., InvertedMove m1]\<close>: the input reversed, each move
  inverted, of the same length.
\<close>

theorem Inverted_reversed_inverses:
  "\<forall>m \<in> set (moves s). valid_move m \<Longrightarrow>
   \<exists>r. Inverted s = Inr r \<and> length (moves r) = length (moves s) \<and>
       map Inr (moves r) = map InvertedMove (rev (moves s))"
proof -
  assume "\<forall>m \<in> set (moves s). valid_move m"
  then have "\<forall>m \<in> set (rev (moves s)). valid_move m" by simp
  from Inverted_loop_valid [OF this, of "\<lparr>moves = []\<rparr>"]
  obtain r where r: "Inverted s = Inr r" "map Inr (moves r) = map InvertedMove (rev (moves s))"
    by (auto simp: Inverted_def)
  from r(2) have "length (map Inr (moves r) :: (fault + CubeMove) list) = length (map InvertedMove (rev (moves s)))"
    by simp
  then have "length (moves r) = length (moves s)" by simp
  with r show ?thesis by blast
qed

text \<open>
  The sequence R U is inverted to U' R'.
\<close>

theorem Inverted_reversed_inverses_witness:
  "valid_move MOVE_R \<and> valid_move MOVE_U \<and>
   Inverted \<lparr>moves = [MOVE_R, MOVE_U]\<rparr> = Inr \<lparr>moves = [MOVE_Up, MOVE_Rp]\<rparr>"
proof -
  have v: "\<forall>m \<in> set (moves \<lparr>moves = [MOVE_R, MOVE_U]\<rparr>). valid_move m"
    by (simp add: valid_move_def MOVE_defs)
  from Inverted_reversed_inverses [OF v]
  obtain r where "Inverted \<lparr>moves = [MOVE_R, MOVE_U]\<rparr> = Inr r"
    and "map Inr (moves r) = map InvertedMove (rev (moves \<lparr>moves = [MOVE_R, MOVE_U]\<rparr>))"
    by blast
  then have "Inverted \<lparr>moves = [MOVE_R, MOVE_U]\<rparr> = Inr r" and "moves r = [MOVE_Up, MOVE_Rp]"
    by (auto simp: InvertedMove_def inverted_def MOVE_defs)
  with v show ?thesis by simp
qed

lemma ToString_loop_append:
  "ToString_loop (xs @ ys) acc = ToString_loop ys (ToString_loop xs acc)"
  by (induction xs arbitrary: acc) simp_all

lemma ToString_loop_nonempty: "acc \<noteq> [] \<Longrightarrow> ToString_loop xs acc \<noteq> []"
  by (induction xs arbitrary: acc) simp_all

lemma ToString_loop_valid_nonempty:
  "\<exists>m \<in> set xs. valid_move m \<Longrightarrow> ToString_loop xs acc \<noteq> []"
proof (induction xs arbitrary: acc)
  case Nil
  then show ?case by simp
next
  case (Cons i rest)
  show ?case
  proof (cases "valid_move i")
    case True
    then have "MoveToString i \<noteq> []" by (simp add: MoveToString_valid)
    then show ?thesis by (simp add: ToString_loop_nonempty)
  next
    case False
    with Cons.prems have "\<exists>m \<in> set rest. valid_move m" by auto
    then show ?thesis using Cons.IH by simp
  qed
qed

text \<open>
  Claim C9. When the last element of a sequence is not one of the 18 valid moves and a
  valid move stands somewhere before it, \<open>ToString\<close> returns a text that ends in a
  space: the separator is appended because the accumulated text is not empty, and the
  invalid move adds the empty token.
\<close>

theorem ToString_invalid_last_trailing_space:
  "\<not> valid_move x \<Longrightarrow> \<exists>m \<in> set ms. valid_move m \<Longrightarrow>
   ToString \<lparr>moves = ms @ [x]\<rparr> \<noteq> [] \<and> last (ToString \<lparr>moves = ms @ [x]\<rparr>) = CHR '' ''"
  by (simp add: ToString_def ToString_loop_append ToString_loop_valid_nonempty MoveToString_invalid)

text \<open>
  The sequence R, U, 18 renders as R U followed by a space.
\<close>

theorem ToString_invalid_last_trailing_space_witness:
  "\<not> valid_move 18 \<and> valid_move MOVE_R \<and>
   ToString \<lparr>moves = [MOVE_R, MOVE_U] @ [18]\<rparr> = ''R U ''"
  using ToString_invalid_last_trailing_space [of 18 "[MOVE_R, MOVE_U]"]
  by (simp add: valid_move_def MOVE_defs ToString_def MoveToString_def)

lemma no_space_in_token: "CHR '' '' \<notin> set (MoveToString m)"
  by (simp add: MoveToString_def)

lemma ToString_loop_join:
  "\<forall>m \<in> set xs. valid_move m \<Longrightarrow> acc \<noteq> [] \<Longrightarrow> xs \<noteq> [] \<Longrightarrow>
   ToString_loop xs acc = acc @ '' '' @ join_space (map MoveToString xs)"
proof (induction xs arbitrary: acc)
  case Nil
  then show ?case by simp
next
  case (Cons i rest)
  show ?case
  proof (cases rest)
    case Nil
    with Cons.prems show ?thesis by simp
  next
    case (Cons j rest')
    have "ToString_loop rest (acc @ '' '' @ MoveToString i)
        = (acc @ '' '' @ MoveToString i) @ '' '' @ join_space (map MoveToString rest)"
      using Cons.prems Cons by (intro Cons.IH) simp_all
    with Cons.prems Cons show ?thesis by simp
  qed
qed

lemma ToString_join_valid:
  "\<forall>m \<in> set xs. valid_move m \<Longrightarrow> ToString_loop xs [] = join_space (map MoveToString xs)"
proof (cases xs)
  case Nil
  then show ?thesis by simp
next
  case (Cons i rest)
  assume v: "\<forall>m \<in> set xs. valid_move m"
  with Cons have ne: "MoveToString i \<noteq> []" by (simp add: MoveToString_valid)
  show ?thesis
  proof (cases rest)
    case Nil
    with Cons show ?thesis by simp
  next
    case (Cons j rest')
    with v \<open>xs = i # rest\<close> ne show ?thesis
      using ToString_loop_join [of rest "MoveToString i"] by simp
  qed
qed

lemma join_space_ends:
  "ts \<noteq> [] \<Longrightarrow> \<forall>t \<in> set ts. t \<noteq> [] \<and> hd t \<noteq> CHR '' '' \<and> last t \<noteq> CHR '' '' \<Longrightarrow>
   join_space ts \<noteq> [] \<and> hd (join_space ts) \<noteq> CHR '' '' \<and> last (join_space ts) \<noteq> CHR '' ''"
  by (induction ts rule: join_space.induct) auto

section \<open>Rendering as joined tokens; random moves\<close>

lemma token_ends:
  "valid_move m \<Longrightarrow>
   MoveToString m \<noteq> [] \<and> hd (MoveToString m) \<noteq> CHR '' '' \<and> last (MoveToString m) \<noteq> CHR '' ''"
proof -
  assume "valid_move m"
  then have ne: "MoveToString m \<noteq> []" by (simp add: MoveToString_valid)
  then have "hd (MoveToString m) \<in> set (MoveToString m)" and "last (MoveToString m) \<in> set (MoveToString m)"
    by simp_all
  with ne no_space_in_token [of m] show ?thesis by metis
qed

text \<open>
  Claim C5. For a sequence of valid moves \<open>ToString\<close> returns the tokens of
  \<open>MoveToString\<close> joined by a single space in input order, and a non-empty result
  neither begins nor ends with the separator; the empty sequence renders as the empty
  string, and R, U, R', U' renders as \<open>R U R' U'\<close>.
\<close>

theorem ToString_joins_tokens:
  "((\<forall>m \<in> set (moves s). valid_move m) \<longrightarrow>
      ToString s = join_space (map MoveToString (moves s)) \<and>
      (ToString s \<noteq> [] \<longrightarrow> hd (ToString s) \<noteq> CHR '' '' \<and> last (ToString s) \<noteq> CHR '' '')) \<and>
   ToString \<lparr>moves = []\<rparr> = [] \<and>
   ToString \<lparr>moves = [MOVE_R, MOVE_U, MOVE_Rp, MOVE_Up]\<rparr>
     = ''R U R'' @ [CHR 0x27] @ '' U'' @ [CHR 0x27]"
proof (intro conjI impI)
  assume v: "\<forall>m \<in> set (moves s). valid_move m"
  then show eq: "ToString s = join_space (map MoveToString (moves s))"
    by (simp add: ToString_def ToString_join_valid)
  assume ne: "ToString s \<noteq> []"
  with eq have "map MoveToString (moves s) \<noteq> []" by auto
  moreover have "\<forall>t \<in> set (map MoveToString (moves s)).
      t \<noteq> [] \<and> hd t \<noteq> CHR '' '' \<and> last t \<noteq> CHR '' ''"
    using v token_ends by auto
  ultimately show "hd (ToString s) \<noteq> CHR '' ''" and "last (ToString s) \<noteq> CHR '' ''"
    using join_space_ends [of "map MoveToString (moves s)"] eq by simp_all
next
  show "ToString \<lparr>moves = []\<rparr> = []"
    by (simp add: ToString_def)
next
  show "ToString \<lparr>moves = [MOVE_R, MOVE_U, MOVE_Rp, MOVE_Up]\<rparr>
     = ''R U R'' @ [CHR 0x27] @ '' U'' @ [CHR 0x27]"
    by (simp add: ToString_def MoveToString_def MOVE_defs)
qed

text \<open>
  The sequence F2, L', D renders as \<open>F2 L' D\<close>.
\<close>

theorem ToString_joins_tokens_witness:
  "valid_move MOVE_F2 \<and> valid_move MOVE_Lp \<and> valid_move MOVE_D \<and>
   ToString \<lparr>moves = [MOVE_F2, MOVE_Lp, MOVE_D]\<rparr> = ''F2 L'' @ [CHR 0x27] @ '' D'' \<and>
   hd (ToString \<lparr>moves = [MOVE_F2, MOVE_Lp, MOVE_D]\<rparr>) \<noteq> CHR '' '' \<and>
   last (ToString \<lparr>moves = [MOVE_F2, MOVE_Lp, MOVE_D]\<rparr>) \<noteq> CHR '' ''"
  using ToString_joins_tokens [of "\<lparr>moves = [MOVE_F2, MOVE_Lp, MOVE_D]\<rparr>"]
  by (simp add: valid_move_def MoveToString_def MOVE_defs)

text \<open>
  Claim C7. \<open>RandomMove\<close> asks the source once, with bound 18 (the recording source
  logs exactly that request and ends in the state of the wrapped source after one
  call), and returns the value drawn as the move; when the source answers every
  positive bound with a value from 0 up to the bound, exclusive, the move returned is
  one of the 18 valid moves.
\<close>

theorem RandomMove_one_request:
  "RandomMove (recording next) (rng, requests)
     = (fst (next 18 rng), (snd (next 18 rng), requests @ [18])) \<and>
   ((\<forall>bound s. 0 < bound \<longrightarrow> 0 \<le> fst (next bound s) \<and> fst (next bound s) < bound) \<longrightarrow>
      valid_move (fst (RandomMove next rng)))"
proof (intro conjI impI)
  show "RandomMove (recording next) (rng, requests)
     = (fst (next 18 rng), (snd (next 18 rng), requests @ [18]))"
    by (simp add: RandomMove_def recording_def MOVE_D2_def split: prod.splits)
next
  assume "\<forall>bound s. 0 < bound \<longrightarrow> 0 \<le> fst (next bound s) \<and> fst (next bound s) < bound"
  then have "0 \<le> fst (next 18 rng) \<and> fst (next 18 rng) < 18" by simp
  then show "valid_move (fst (RandomMove next rng))"
    by (simp add: RandomMove_def valid_move_def MOVE_defs split: prod.splits)
qed

text \<open>
  The linear congruential source started at seed 1 draws the move 6.
\<close>

theorem RandomMove_one_request_witness:
  "RandomMove (recording lcg_next) (1, []) = (6, (1103527590, [18])) \<and>
   valid_move (fst (RandomMove lcg_next 1))"
proof -
  have h: "\<forall>bound s. 0 < bound \<longrightarrow> 0 \<le> fst (lcg_next bound s) \<and> fst (lcg_next bound s) < bound"
    by (simp add: lcg_next_def Let_def)
  have "fst (lcg_next 18 1) = 6" and "snd (lcg_next 18 1) = 1103527590"
    by (simp_all add: lcg_next_def)
  with h RandomMove_one_request [of lcg_next 1 "[]"] show ?thesis
    by simp
qed

section \<open>The loop of the binomial helper\<close>

lemma sint_of_nat32: "x < 2147483648 \<Longrightarrow> sint (of_nat x :: int32) = int x"
  by (simp add: signed_of_nat signed_take_bit_int_eq_self)

lemma of_nat_sint32: "0 \<le> sint (w :: int32) \<Longrightarrow> of_nat (nat (sint w)) = w"
  by simp

lemma nat_sint32_bound: "nat (sint (w :: int32)) < 2147483648"
  using sint_lt [of w] by simp

lemma sless_of_nat32:
  "a < 2147483648 \<Longrightarrow> b < 2147483648 \<Longrightarrow> (of_nat a :: int32) <s of_nat b \<longleftrightarrow> a < b"
  by (simp add: word_sless_alt sint_of_nat32)

lemma of_nat_neq_zero32: "0 < x \<Longrightarrow> x < 2147483648 \<Longrightarrow> (of_nat x :: int32) \<noteq> 0"
  using sint_of_nat32 [of x] by auto

lemma of_nat_neq_minus_one32: "x < 2147483648 \<Longrightarrow> (of_nat x :: int32) \<noteq> - 1"
  using sint_of_nat32 [of x] by auto

lemma div_int32_of_nat:
  assumes "a < 2147483648" "0 < b" "b < 2147483648"
  shows "div_int32 (of_nat a) (of_nat b) = Inr (of_nat (a div b))"
proof -
  have "sint (of_nat a :: int32) sdiv sint (of_nat b :: int32) = int (a div b)"
    using assms by (simp add: sint_of_nat32 signed_divide_int_def sgn_if zdiv_int)
  with assms show ?thesis
    by (simp add: div_int32_def of_nat_neq_zero32 of_nat_neq_minus_one32)
qed

lemma binomial_step: "(N choose j) * (N - j) = Suc j * (N choose Suc j)"
  using binomial_absorption [of j N] binomial_absorb_comp [of N j] by (simp add: mult.commute)

lemma product_bound:
  assumes "j < m" "2 * m \<le> N"
  shows "Suc j * (N choose Suc j) \<le> m * (N choose m)"
proof -
  have "N choose Suc j \<le> N choose m"
    using assms by (intro binomial_mono) simp_all
  moreover have "Suc j \<le> m" using assms by simp
  ultimately show ?thesis by (simp only: mult_le_mono)
qed

lemma div_int32_exact:
  assumes "0 < b" "b < 2147483648" "b * c < 2147483648"
  shows "div_int32 (of_nat (b * c)) (of_nat b) = Inr (of_nat c)"
  using div_int32_of_nat [of "b * c" b] assms by simp

lemma NChooseK_body_exact:
  assumes "N < 2147483648" "j < m" "2 * m \<le> N" "m * (N choose m) < 2147483648"
  shows "NChooseK_body (of_nat (N - j)) (of_nat (N choose j)) (of_nat (Suc j))
       = Inr (of_nat (N - Suc j), of_nat (N choose Suc j), of_nat (Suc (Suc j)))"
proof -
  have p: "Suc j * (N choose Suc j) < 2147483648"
    using product_bound [OF assms(2,3)] assms(4) by simp
  have "(of_nat (N choose j) :: int32) * of_nat (N - j) = of_nat (Suc j * (N choose Suc j))"
    using binomial_step [of N j] by (metis of_nat_mult)
  moreover have "Suc j < 2147483648"
    using assms by linarith
  then have "div_int32 (of_nat (Suc j * (N choose Suc j))) (of_nat (Suc j))
      = Inr (of_nat (N choose Suc j))"
    using p by (intro div_int32_exact) simp_all
  moreover have "(of_nat (N - j) :: int32) - 1 = of_nat (N - Suc j)"
    using assms by (simp add: of_nat_diff)
  moreover have "(of_nat (Suc j) :: int32) + 1 = of_nat (Suc (Suc j))"
    by simp
  ultimately show ?thesis
    by (simp only: NChooseK_body_def sum.case)
qed

lemma NChooseK_run_exit:
  "\<not> bound <s i \<Longrightarrow> NChooseK_run t bound (i, result, denom) = Inr (i, result, denom)"
  by (cases t) simp_all

lemma NChooseK_run_Suc:
  "NChooseK_run (Suc t) bound st =
     (case NChooseK_run t bound st of
        Inl e \<Rightarrow> Inl e
      | Inr (i, result, denom) \<Rightarrow>
          if bound <s i then NChooseK_body i result denom else Inr (i, result, denom))"
proof (induction t arbitrary: st)
  case 0
  then show ?case by (cases st) (simp split: sum.splits)
next
  case (Suc t)
  obtain i result denom where st: "st = (i, result, denom)" by (cases st)
  show ?case
  proof (cases "bound <s i")
    case True
    show ?thesis
    proof (cases "NChooseK_body i result denom")
      case (Inl e)
      with True st show ?thesis by simp
    next
      case (Inr st')
      with True st Suc.IH [of st'] show ?thesis by simp
    qed
  next
    case False
    with st show ?thesis by simp
  qed
qed

lemma NChooseK_loop_run:
  "NChooseK_loop bound i result denom =
     (case NChooseK_run t bound (i, result, denom) of
        Inl e \<Rightarrow> Inl e
      | Inr (i', result', denom') \<Rightarrow> NChooseK_loop bound i' result' denom')"
proof (induction t arbitrary: i result denom)
  case 0
  then show ?case by simp
next
  case (Suc t)
  show ?case
  proof (cases "bound <s i")
    case True
    show ?thesis
    proof (cases "NChooseK_body i result denom")
      case (Inl e)
      with True show ?thesis by (simp add: NChooseK_loop.simps [of bound i])
    next
      case (Inr st')
      obtain i' result' denom' where "st' = (i', result', denom')" by (cases st')
      with True Inr Suc.IH [of i' result' denom'] show ?thesis
        by (simp add: NChooseK_loop.simps [of bound i])
    qed
  next
    case False
    then show ?thesis by (simp add: NChooseK_loop.simps [of bound i])
  qed
qed

lemma NChooseK_run_exact:
  assumes "N < 2147483648" "2 * m \<le> N" "m * (N choose m) < 2147483648" "j \<le> m"
  shows "NChooseK_run j (of_nat (N - m)) (of_nat N, 1, 1)
       = Inr (of_nat (N - j), of_nat (N choose j), of_nat (Suc j))"
  using assms(4)
proof (induction j)
  case 0
  then show ?case by simp
next
  case (Suc j)
  then have j: "j < m" and IH: "NChooseK_run j (of_nat (N - m)) (of_nat N, 1, 1)
       = Inr (of_nat (N - j), of_nat (N choose j), of_nat (Suc j))"
    by simp_all
  have guard: "(of_nat (N - m) :: int32) <s of_nat (N - j)"
    using assms j by (subst sless_of_nat32) auto
  show ?case
    unfolding NChooseK_run_Suc [of j] IH
    using guard NChooseK_body_exact [OF assms(1) j assms(2,3)] by simp
qed

lemma NChooseK_loop_exact:
  assumes "N < 2147483648" "2 * m \<le> N" "m * (N choose m) < 2147483648"
  shows "NChooseK_loop (of_nat (N - m)) (of_nat N) 1 1 = Inr (of_nat (N choose m))"
proof -
  have exit: "NChooseK_loop (of_nat (N - m)) (of_nat (N - m)) r d = Inr r" for r d
    by (subst NChooseK_loop.simps) simp
  show ?thesis
    by (subst NChooseK_loop_run [of _ _ _ _ m])
      (simp only: NChooseK_run_exact [OF assms order_refl] sum.case prod.case exit)
qed

section \<open>The binomial helper on 32-bit integers\<close>

lemma half_of_nat32:
  "N < 2147483648 \<Longrightarrow> word_of_int (sint (of_nat N :: int32) sdiv 2) = (of_nat (N div 2) :: int32)"
proof -
  assume "N < 2147483648"
  then have "sint (of_nat N :: int32) sdiv 2 = int (N div 2)"
    by (simp add: sint_of_nat32 signed_divide_int_def sgn_if zdiv_int)
  then show ?thesis by simp
qed

lemma symmetric_k_of_nat:
  assumes "N < 2147483648" "K \<le> N"
  shows "symmetric_k (of_nat N) (of_nat K) = of_nat (min K (N - K))"
proof -
  have "(of_nat (N div 2) :: int32) <s of_nat K \<longleftrightarrow> N div 2 < K"
    using assms by (intro sless_of_nat32) auto
  moreover have "N div 2 < K \<Longrightarrow> min K (N - K) = N - K"
    by auto
  moreover have "\<not> N div 2 < K \<Longrightarrow> min K (N - K) = K"
    by auto
  ultimately show ?thesis
    using assms by (simp add: symmetric_k_def half_of_nat32 of_nat_diff)
qed

lemma NChooseK_of_nat:
  assumes "N < 2147483648" "K \<le> N"
  shows "NChooseK (of_nat N) (of_nat K)
       = NChooseK_loop (of_nat (N - min K (N - K))) (of_nat N) 1 1"
proof -
  have "\<not> (of_nat N :: int32) <s of_nat K"
    using assms by (subst sless_of_nat32) auto
  moreover have "(of_nat N :: int32) - of_nat (min K (N - K)) = of_nat (N - min K (N - K))"
    using assms by (simp add: of_nat_diff)
  ultimately show ?thesis
    using assms by (simp add: NChooseK_def symmetric_k_of_nat)
qed

lemma words_as_nats:
  assumes "0 \<le>s k" "k \<le>s (n :: int32)"
  shows "n = of_nat (nat (sint n))" "k = of_nat (nat (sint k))"
    "nat (sint k) \<le> nat (sint n)" "nat (sint n) < 2147483648"
    "n - k = of_nat (nat (sint n) - nat (sint k))"
proof -
  from assms have k: "0 \<le> sint k" and kn: "sint k \<le> sint n"
    by (simp_all add: word_sle_eq)
  then show n': "n = of_nat (nat (sint n))" and k': "k = of_nat (nat (sint k))"
    by simp_all
  show le: "nat (sint k) \<le> nat (sint n)" using k kn by simp
  show "nat (sint n) < 2147483648" by (rule nat_sint32_bound)
  have "n - k = of_nat (nat (sint n)) - of_nat (nat (sint k))"
    using n' k' by simp
  also have "\<dots> = of_nat (nat (sint n) - nat (sint k))"
    using le by (simp only: of_nat_diff)
  finally show "n - k = of_nat (nat (sint n) - nat (sint k))" .
qed

lemma NChooseK_exact_nat:
  assumes "N < 2147483648" "K \<le> N" "min K (N - K) * (N choose min K (N - K)) < 2147483648"
  shows "NChooseK (of_nat N) (of_nat K) = Inr (of_nat (N choose K))"
    and "N choose K < 2147483648"
proof -
  let ?m = "min K (N - K)"
  have m: "2 * ?m \<le> N" using assms(2) by auto
  have sym: "N choose ?m = N choose K"
    using assms(2) binomial_symmetric [of K N] by (simp add: min_def)
  show "NChooseK (of_nat N) (of_nat K) = Inr (of_nat (N choose K))"
    using NChooseK_of_nat [OF assms(1,2)] NChooseK_loop_exact [OF assms(1) m assms(3)] sym
    by simp
  define m where "m = min K (N - K)"
  have p: "m * (N choose m) < 2147483648" and sym': "N choose K = N choose m"
    using assms(3) sym by (simp_all add: m_def)
  have "N choose m \<le> max 1 (m * (N choose m))"
    by (cases m) simp_all
  with p show "N choose K < 2147483648"
    unfolding sym' by linarith
qed

text \<open>
  Claim C1, amended. Let \<open>0 \<le> k \<le> n\<close> be 32-bit integers and \<open>m\<close> the smaller of
  \<open>k\<close> and \<open>n - k\<close>. When \<open>m * C(n, m)\<close>, the largest product the loop forms, fits a
  32-bit signed integer, \<open>NChooseK n k\<close> returns the binomial coefficient \<open>C(n, k)\<close>.
  For \<open>n < k\<close> it returns 0.
\<close>

theorem NChooseK_binomial:
  "(0 \<le>s k \<and> k \<le>s n \<and>
      min (nat (sint k)) (nat (sint n) - nat (sint k)) *
        (nat (sint n) choose min (nat (sint k)) (nat (sint n) - nat (sint k))) \<le> 2147483647 \<longrightarrow>
      (\<exists>r. NChooseK n k = Inr r \<and> sint r = int (nat (sint n) choose nat (sint k)))) \<and>
   (n <s k \<longrightarrow> NChooseK n k = Inr 0)"
proof (intro conjI impI)
  let ?N = "nat (sint n)" and ?K = "nat (sint k)"
  assume a: "0 \<le>s k \<and> k \<le>s n \<and>
      min ?K (?N - ?K) * (?N choose min ?K (?N - ?K)) \<le> 2147483647"
  then have w: "n = of_nat ?N" "k = of_nat ?K" "?K \<le> ?N" "?N < 2147483648"
    using words_as_nats [of k n] by simp_all
  from a have p: "min ?K (?N - ?K) * (?N choose min ?K (?N - ?K)) < 2147483648"
    by simp
  have "NChooseK (of_nat ?N) (of_nat ?K) = Inr (of_nat (?N choose ?K))"
    and "?N choose ?K < 2147483648"
    using NChooseK_exact_nat [OF w(4) w(3) p] by simp_all
  then have "NChooseK n k = Inr (of_nat (?N choose ?K))"
    and "sint (of_nat (?N choose ?K) :: int32) = int (?N choose ?K)"
    using w(1,2) by (simp_all add: sint_of_nat32)
  then show "\<exists>r. NChooseK n k = Inr r \<and> sint r = int (?N choose ?K)"
    by blast
next
  assume "n <s k"
  then show "NChooseK n k = Inr 0"
    by (simp add: NChooseK_def)
qed

section \<open>Concrete runs of the binomial helper\<close>

text \<open>
  \<open>NChooseK 5 2\<close> is 10, \<open>NChooseK 5 0\<close> is 1 and \<open>NChooseK 3 5\<close> is 0.
\<close>

theorem NChooseK_binomial_witness:
  "0 \<le>s (2 :: int32) \<and> 2 \<le>s (5 :: int32) \<and>
   (\<exists>r. NChooseK 5 2 = Inr r \<and> sint r = 10) \<and>
   0 \<le>s (0 :: int32) \<and> 0 \<le>s (5 :: int32) \<and>
   (\<exists>r. NChooseK 5 0 = Inr r \<and> sint r = 1) \<and>
   (3 :: int32) <s 5 \<and> NChooseK 3 5 = Inr 0"
proof -
  have h2: "0 \<le>s (2 :: int32) \<and> 2 \<le>s (5 :: int32) \<and>
      min (nat (sint (2 :: int32))) (nat (sint (5 :: int32)) - nat (sint (2 :: int32))) *
        (nat (sint (5 :: int32)) choose
           min (nat (sint (2 :: int32))) (nat (sint (5 :: int32)) - nat (sint (2 :: int32))))
        \<le> 2147483647"
    by (simp add: word_sle_eq binomial_fact' fact_numeral)
  have h0: "0 \<le>s (0 :: int32) \<and> 0 \<le>s (5 :: int32) \<and>
      min (nat (sint (0 :: int32))) (nat (sint (5 :: int32)) - nat (sint (0 :: int32))) *
        (nat (sint (5 :: int32)) choose
           min (nat (sint (0 :: int32))) (nat (sint (5 :: int32)) - nat (sint (0 :: int32))))
        \<le> 2147483647"
    by (simp add: word_sle_eq)
  have h3: "(3 :: int32) <s 5"
    by simp
  have "\<exists>r. NChooseK 5 2 = Inr r \<and> sint r = 10"
    using NChooseK_binomial [of 2 5] h2 by (simp add: binomial_fact' fact_numeral)
  moreover have "\<exists>r. NChooseK 5 0 = Inr r \<and> sint r = 1"
    using NChooseK_binomial [of 0 5] h0 by simp
  moreover have "NChooseK 3 5 = Inr 0"
    using NChooseK_binomial [of 5 3] h3 by simp
  ultimately show ?thesis
    using h2 h0 h3 by simp
qed

text \<open>
  Without the bound the claim fails: \<open>C(30, 15) = 155117520\<close> fits 32 bits, but the
  last product \<open>145422675 * 16\<close> of the loop does not, and \<open>NChooseK 30 15\<close> returns
  \<open>-131213633\<close>.
\<close>

theorem NChooseK_binomial_counterexample:
  "0 \<le>s (15 :: int32) \<and> 15 \<le>s (30 :: int32) \<and>
   NChooseK 30 15 = Inr (- 131213633) \<and>
   sint (- 131213633 :: int32) = - 131213633 \<and>
   (30 :: nat) choose 15 = 155117520"
proof -
  have "NChooseK 30 15 = Inr (- 131213633)"
    by code_simp
  moreover have "(30 :: nat) choose 15 = 155117520"
    by (simp add: binomial_fact' fact_numeral)
  ultimately show ?thesis by (simp add: word_sle_eq)
qed

section \<open>Every division of the loop\<close>

lemma NChooseK_iteration_nat:
  assumes "N < 2147483648" "2 * m \<le> N" "m * (N choose m) < 2147483648" "j < m"
  defines "bound \<equiv> (of_nat (N - m) :: int32)"
  defines "i \<equiv> (of_nat (N - j) :: int32)"
  defines "result \<equiv> (of_nat (N choose j) :: int32)"
  defines "denom \<equiv> (of_nat (Suc j) :: int32)"
  defines "result' \<equiv> (of_nat (N choose Suc j) :: int32)"
  shows "NChooseK_run j bound (of_nat N, 1, 1) = Inr (i, result, denom)"
    and "bound <s i"
    and "sint (result * i) = sint result * sint i"
    and "sint denom dvd sint (result * i)"
    and "NChooseK_run (Suc j) bound (of_nat N, 1, 1) = Inr (i - 1, result', denom + 1)"
    and "result' * denom = result * i"
    and "sint result' = int (N choose Suc j)"
proof -
  have p: "Suc j * (N choose Suc j) < 2147483648"
    using product_bound [OF assms(4,2)] assms(3) by simp
  have jN: "j < N" and Nj: "N - j < 2147483648" and Sj: "Suc j < 2147483648"
    using assms(1,2,4) by simp_all
  have prod: "result * i = of_nat (Suc j * (N choose Suc j))"
    unfolding result_def i_def using binomial_step [of N j] by (metis of_nat_mult)
  have "N choose Suc j \<le> Suc j * (N choose Suc j)"
    by simp
  with p have c': "N choose Suc j < 2147483648"
    by simp
  have "(N choose j) * 1 \<le> (N choose j) * (N - j)"
    using jN by (intro mult_le_mono) simp_all
  with p binomial_step [of N j] have c: "N choose j < 2147483648"
    by simp
  show "NChooseK_run j bound (of_nat N, 1, 1) = Inr (i, result, denom)"
    unfolding bound_def i_def result_def denom_def
    using assms(4) by (intro NChooseK_run_exact [OF assms(1-3)]) simp
  show "bound <s i"
    unfolding bound_def i_def using assms(1,2,4) by (subst sless_of_nat32) auto
  have "sint (result * i) = int (Suc j * (N choose Suc j))"
    unfolding prod using p by (rule sint_of_nat32)
  moreover have "sint result = int (N choose j)" and "sint i = int (N - j)"
    unfolding result_def i_def using c Nj by (simp_all only: sint_of_nat32)
  moreover have "sint denom = int (Suc j)"
    unfolding denom_def using Sj by (rule sint_of_nat32)
  ultimately have s: "sint (result * i) = int (Suc j) * int (N choose Suc j)"
    "sint result * sint i = int ((N choose j) * (N - j))" "sint denom = int (Suc j)"
    by (simp_all only: of_nat_mult)
  show "sint (result * i) = sint result * sint i"
    unfolding s binomial_step by (simp only: of_nat_mult)
  show "sint denom dvd sint (result * i)"
    unfolding s by (rule dvd_triv_left)
  have "NChooseK_run (Suc j) bound (of_nat N, 1, 1)
      = Inr (of_nat (N - Suc j), result', of_nat (Suc (Suc j)))"
    unfolding bound_def result'_def
    using assms(4) by (intro NChooseK_run_exact [OF assms(1-3)]) simp
  moreover have "(of_nat (N - Suc j) :: int32) = i - 1"
    unfolding i_def using jN by (simp add: of_nat_diff)
  moreover have "(of_nat (Suc (Suc j)) :: int32) = denom + 1"
    unfolding denom_def by simp
  ultimately show "NChooseK_run (Suc j) bound (of_nat N, 1, 1) = Inr (i - 1, result', denom + 1)"
    by simp
  show "result' * denom = result * i"
    unfolding prod unfolding result'_def denom_def by (simp only: of_nat_mult mult.commute)
  show "sint result' = int (N choose Suc j)"
    unfolding result'_def using c' by (rule sint_of_nat32)
qed

text \<open>
  Claim C2, amended. Let \<open>0 \<le> k \<le> n\<close> be 32-bit integers, \<open>m\<close> the smaller of \<open>k\<close>
  and \<open>n - k\<close> (the value of \<open>k\<close> after the substitution), and let \<open>m * C(n, m)\<close> fit a
  32-bit signed integer. Then for every \<open>j < m\<close> the loop is entered a further time
  after \<open>j\<close> iterations, the product \<open>result * i\<close> it forms does not wrap and is
  divisible by \<open>denom\<close>, the quotient times \<open>denom\<close> is the product again, and after
  the iteration \<open>result\<close> is \<open>C(n, j + 1)\<close>.
\<close>

theorem NChooseK_division_exact:
  "0 \<le>s k \<and> k \<le>s n \<and>
   min (nat (sint k)) (nat (sint n) - nat (sint k)) *
     (nat (sint n) choose min (nat (sint k)) (nat (sint n) - nat (sint k))) \<le> 2147483647 \<and>
   j < min (nat (sint k)) (nat (sint n) - nat (sint k)) \<longrightarrow>
   (\<exists>i result denom result'.
      NChooseK_run j (n - symmetric_k n k) (n, 1, 1) = Inr (i, result, denom) \<and>
      (n - symmetric_k n k) <s i \<and>
      sint (result * i) = sint result * sint i \<and>
      sint denom dvd sint (result * i) \<and>
      NChooseK_run (Suc j) (n - symmetric_k n k) (n, 1, 1) = Inr (i - 1, result', denom + 1) \<and>
      result' * denom = result * i \<and>
      sint result' = int (nat (sint n) choose Suc j))"
proof
  let ?N = "nat (sint n)" and ?K = "nat (sint k)"
  define m where "m = min ?K (?N - ?K)"
  assume a: "0 \<le>s k \<and> k \<le>s n \<and>
    min ?K (?N - ?K) * (?N choose min ?K (?N - ?K)) \<le> 2147483647 \<and> j < min ?K (?N - ?K)"
  then have w: "n = of_nat ?N" "k = of_nat ?K" "?K \<le> ?N" "?N < 2147483648"
    using words_as_nats [of k n] by simp_all
  from a have p: "m * (?N choose m) < 2147483648" and j: "j < m"
    by (simp_all add: m_def)
  have m: "2 * m \<le> ?N"
    using w(3) by (auto simp: m_def)
  have "symmetric_k (of_nat ?N) (of_nat ?K) = of_nat m"
    unfolding m_def by (rule symmetric_k_of_nat [OF w(4,3)])
  then have "symmetric_k n k = of_nat m"
    using w(1,2) by simp
  moreover have "(of_nat ?N :: int32) - of_nat m = of_nat (?N - m)"
    using m by (simp add: of_nat_diff)
  ultimately have b: "n - symmetric_k n k = of_nat (?N - m)"
    using w(1) by simp
  have n: "(n, 1 :: int32, 1 :: int32) = (of_nat ?N, 1, 1)"
    using w(1) by simp
  show "\<exists>i result denom result'.
      NChooseK_run j (n - symmetric_k n k) (n, 1, 1) = Inr (i, result, denom) \<and>
      (n - symmetric_k n k) <s i \<and>
      sint (result * i) = sint result * sint i \<and>
      sint denom dvd sint (result * i) \<and>
      NChooseK_run (Suc j) (n - symmetric_k n k) (n, 1, 1) = Inr (i - 1, result', denom + 1) \<and>
      result' * denom = result * i \<and>
      sint result' = int (?N choose Suc j)"
    unfolding b n
    using NChooseK_iteration_nat [OF w(4) m p j] by blast
qed

section \<open>Concrete iterations\<close>

text \<open>
  The second iteration for \<open>n = 5\<close>, \<open>k = 2\<close>: from the state \<open>(4, 5, 2)\<close> the
  product 20 is divided by 2, and the state is \<open>(3, 10, 3)\<close>.
\<close>

theorem NChooseK_division_exact_witness:
  "0 \<le>s (2 :: int32) \<and> 2 \<le>s (5 :: int32) \<and> symmetric_k 5 2 = 2 \<and>
   NChooseK_run 1 (5 - symmetric_k 5 2) (5, 1, 1) = Inr (4, 5, 2) \<and>
   sint (5 * 4 :: int32) = 20 \<and> sint (2 :: int32) dvd sint (5 * 4 :: int32) \<and>
   NChooseK_run 2 (5 - symmetric_k 5 2) (5, 1, 1) = Inr (3, 10, 3) \<and>
   (\<exists>i result denom result'.
      NChooseK_run 1 (5 - symmetric_k 5 2) (5, 1, 1) = Inr (i, result, denom) \<and>
      (5 - symmetric_k 5 2) <s i \<and>
      sint (result * i) = sint result * sint i \<and>
      sint denom dvd sint (result * i) \<and>
      NChooseK_run (Suc 1) (5 - symmetric_k 5 2) (5, 1, 1) = Inr (i - 1, result', denom + 1) \<and>
      result' * denom = result * i \<and>
      sint result' = int (nat (sint (5 :: int32)) choose Suc 1))"
proof -
  have h: "0 \<le>s (2 :: int32) \<and> 2 \<le>s (5 :: int32) \<and>
      min (nat (sint (2 :: int32))) (nat (sint (5 :: int32)) - nat (sint (2 :: int32))) *
        (nat (sint (5 :: int32)) choose
           min (nat (sint (2 :: int32))) (nat (sint (5 :: int32)) - nat (sint (2 :: int32))))
        \<le> 2147483647 \<and>
      1 < min (nat (sint (2 :: int32))) (nat (sint (5 :: int32)) - nat (sint (2 :: int32)))"
    by (simp add: word_sle_eq binomial_fact' fact_numeral)
  have e: "\<exists>i result denom result'.
      NChooseK_run 1 (5 - symmetric_k 5 2) (5, 1, 1) = Inr (i, result, denom) \<and>
      (5 - symmetric_k 5 2) <s i \<and>
      sint (result * i) = sint result * sint i \<and>
      sint denom dvd sint (result * i) \<and>
      NChooseK_run (Suc 1) (5 - symmetric_k 5 2) (5, 1, 1) = Inr (i - 1, result', denom + 1) \<and>
      result' * denom = result * i \<and>
      sint result' = int (nat (sint (5 :: int32)) choose Suc 1)"
    using NChooseK_division_exact [of 2 5 1] h by blast
  have s: "symmetric_k 5 2 = 2"
    by code_simp
  have r1: "NChooseK_run 1 (5 - symmetric_k 5 2) (5, 1, 1) = Inr (4, 5, 2)"
    by code_simp
  have r2: "NChooseK_run 2 (5 - symmetric_k 5 2) (5, 1, 1) = Inr (3, 10, 3)"
    by code_simp
  have "sint (5 * 4 :: int32) = 20" and "sint (2 :: int32) dvd sint (5 * 4 :: int32)"
    by simp_all
  with h e s r1 r2 show ?thesis
    by blast
qed

text \<open>
  Without the bound the claim fails in the last iteration for \<open>n = 30\<close>, \<open>k = 15\<close>:
  the product \<open>145422675 * 16\<close> wraps to \<open>-1968204496\<close>, which 15 does not divide, and
  the quotient \<open>-131213633\<close> is not \<open>C(30, 15) = 155117520\<close>.
\<close>

theorem NChooseK_division_exact_counterexample:
  "0 \<le>s (15 :: int32) \<and> 15 \<le>s (30 :: int32) \<and> symmetric_k 30 15 = 15 \<and>
   NChooseK_run 14 (30 - symmetric_k 30 15) (30, 1, 1) = Inr (16, 145422675, 15) \<and>
   sint (145422675 * 16 :: int32) = - 1968204496 \<and>
   \<not> sint (15 :: int32) dvd sint (145422675 * 16 :: int32) \<and>
   NChooseK_run 15 (30 - symmetric_k 30 15) (30, 1, 1) = Inr (15, - 131213633, 16) \<and>
   sint (- 131213633 :: int32) = - 131213633 \<and>
   (30 :: nat) choose 15 = 155117520"
proof -
  have "symmetric_k 30 15 = 15"
    by code_simp
  moreover have "NChooseK_run 14 (30 - symmetric_k 30 15) (30, 1, 1) = Inr (16, 145422675, 15)"
    by code_simp
  moreover have "NChooseK_run 15 (30 - symmetric_k 30 15) (30, 1, 1) = Inr (15, - 131213633, 16)"
    by code_simp
  moreover have "(30 :: nat) choose 15 = 155117520"
    by (simp add: binomial_fact' fact_numeral)
  moreover have "sint (145422675 * 16 :: int32) = - 1968204496"
    by simp
  moreover have "\<not> (15 :: int) dvd - 1968204496"
    by simp
  ultimately show ?thesis
    by (simp add: word_sle_eq)
qed

section \<open>Symmetry\<close>

lemma NChooseK_body_product:
  assumes "N < 2147483648" "j < N" "Suc j * (N choose Suc j) < 2147483648"
  shows "NChooseK_body (of_nat (N - j)) (of_nat (N choose j)) (of_nat (Suc j))
       = Inr (of_nat (N - Suc j), of_nat (N choose Suc j), of_nat (Suc (Suc j)))"
proof -
  have "(of_nat (N choose j) :: int32) * of_nat (N - j) = of_nat (Suc j * (N choose Suc j))"
    using binomial_step [of N j] by (metis of_nat_mult)
  moreover have "Suc j < 2147483648"
    using assms(1,2) by linarith
  then have "div_int32 (of_nat (Suc j * (N choose Suc j))) (of_nat (Suc j))
      = Inr (of_nat (N choose Suc j))"
    using assms(3) by (intro div_int32_exact) simp_all
  moreover have "(of_nat (N - j) :: int32) - 1 = of_nat (N - Suc j)"
    using assms(2) by (simp add: of_nat_diff)
  moreover have "(of_nat (Suc j) :: int32) + 1 = of_nat (Suc (Suc j))"
    by simp
  ultimately show ?thesis
    by (simp only: NChooseK_body_def sum.case)
qed

lemma NChooseK_run_products:
  assumes "N < 2147483648" "m \<le> N" "\<forall>j<m. Suc j * (N choose Suc j) < 2147483648" "j \<le> m"
  shows "NChooseK_run j (of_nat (N - m)) (of_nat N, 1, 1)
       = Inr (of_nat (N - j), of_nat (N choose j), of_nat (Suc j))"
  using assms(4)
proof (induction j)
  case 0
  then show ?case by simp
next
  case (Suc j)
  then have j: "j < m" and IH: "NChooseK_run j (of_nat (N - m)) (of_nat N, 1, 1)
       = Inr (of_nat (N - j), of_nat (N choose j), of_nat (Suc j))"
    by simp_all
  have guard: "(of_nat (N - m) :: int32) <s of_nat (N - j)"
    using assms(1,2) j by (subst sless_of_nat32) auto
  have "j < N" and "Suc j * (N choose Suc j) < 2147483648"
    using assms(2,3) j by auto
  then show ?case
    unfolding NChooseK_run_Suc [of j] IH
    using guard NChooseK_body_product [OF assms(1)] by simp
qed

lemma NChooseK_loop_products:
  assumes "N < 2147483648" "m \<le> N" "\<forall>j<m. Suc j * (N choose Suc j) < 2147483648"
  shows "NChooseK_loop (of_nat (N - m)) (of_nat N) 1 1 = Inr (of_nat (N choose m))"
proof -
  have exit: "NChooseK_loop (of_nat (N - m)) (of_nat (N - m)) r d = Inr r" for r d
    by (subst NChooseK_loop.simps) simp
  show ?thesis
    by (subst NChooseK_loop_run [of _ _ _ _ m])
      (simp only: NChooseK_run_products [OF assms order_refl] sum.case prod.case exit)
qed

lemma NChooseK_mirror:
  assumes "0 \<le>s k" "k \<le>s n"
  shows "NChooseK n k = NChooseK n (n - k)"
proof -
  let ?N = "nat (sint n)" and ?K = "nat (sint k)"
  define m where "m = min ?K (?N - ?K)"
  from assms have w: "n = of_nat ?N" "k = of_nat ?K" "?K \<le> ?N" "?N < 2147483648"
    "n - k = of_nat (?N - ?K)"
    by (rule words_as_nats)+
  have direct: "NChooseK (of_nat ?N) (of_nat ?K) = NChooseK_loop (of_nat (?N - m)) (of_nat ?N) 1 1"
    unfolding m_def by (rule NChooseK_of_nat [OF w(4,3)])
  have "min (?N - ?K) (?N - (?N - ?K)) = m"
    using w(3) by (simp add: m_def min.commute)
  then have mirrored: "NChooseK (of_nat ?N) (of_nat (?N - ?K))
      = NChooseK_loop (of_nat (?N - m)) (of_nat ?N) 1 1"
    using NChooseK_of_nat [OF w(4), of "?N - ?K"] by simp
  show ?thesis
    unfolding w(5) using direct mirrored w(1,2) by simp
qed

lemma NChooseK_original_k:
  assumes "0 \<le>s k" "k \<le>s n"
    and "\<forall>j \<le> nat (sint k). j * (nat (sint n) choose j) \<le> 2147483647"
  shows "NChooseK_loop (n - k) n 1 1 = NChooseK n k"
proof -
  let ?N = "nat (sint n)" and ?K = "nat (sint k)"
  define m where "m = min ?K (?N - ?K)"
  from assms(1,2) have w: "n = of_nat ?N" "k = of_nat ?K" "?K \<le> ?N" "?N < 2147483648"
    "n - k = of_nat (?N - ?K)"
    by (rule words_as_nats)+
  have products: "\<forall>j<?K. Suc j * (?N choose Suc j) < 2147483648"
  proof (intro allI impI)
    fix j assume "j < ?K"
    then have "Suc j \<le> ?K" by simp
    with assms(3) have "Suc j * (?N choose Suc j) \<le> 2147483647" by blast
    then show "Suc j * (?N choose Suc j) < 2147483648" by simp
  qed
  have "m \<le> ?K"
    by (simp add: m_def)
  with assms(3) have "m * (?N choose m) \<le> 2147483647"
    by blast
  then have "min ?K (?N - ?K) * (?N choose min ?K (?N - ?K)) < 2147483648"
    by (simp add: m_def)
  then have "NChooseK (of_nat ?N) (of_nat ?K) = Inr (of_nat (?N choose ?K))"
    by (rule NChooseK_exact_nat(1) [OF w(4,3)])
  moreover have "NChooseK_loop (of_nat (?N - ?K)) (of_nat ?N) 1 1 = Inr (of_nat (?N choose ?K))"
    by (rule NChooseK_loop_products [OF w(4,3) products])
  ultimately have "NChooseK_loop (of_nat (?N - ?K)) (of_nat ?N) 1 1
      = NChooseK (of_nat ?N) (of_nat ?K)"
    by simp
  then show ?thesis
    using w(1,2,5) by simp
qed

text \<open>
  Claim C8, amended. For 32-bit integers \<open>0 \<le> k \<le> n\<close>, \<open>NChooseK n k\<close> and
  \<open>NChooseK n (n - k)\<close> return the same. The substitution \<open>k := n - k\<close> for \<open>k > n / 2\<close>
  leaves the returned value as the loop on the original \<open>k\<close> computes it, that is
  \<open>NChooseK_loop (n - k) n 1 1\<close>, when it does not fire, and when no product that loop
  forms overflows: \<open>j * C(n, j)\<close> fits a 32-bit signed integer for every \<open>j \<le> k\<close>.
\<close>

theorem NChooseK_symmetric:
  "0 \<le>s k \<Longrightarrow> k \<le>s n \<Longrightarrow>
   NChooseK n k = NChooseK n (n - k) \<and>
   (symmetric_k n k = k \<longrightarrow> NChooseK_loop (n - k) n 1 1 = NChooseK n k) \<and>
   ((\<forall>j \<le> nat (sint k). j * (nat (sint n) choose j) \<le> 2147483647) \<longrightarrow>
      NChooseK_loop (n - k) n 1 1 = NChooseK n k)"
proof (intro conjI impI)
  assume k: "0 \<le>s k" "k \<le>s n"
  then show "NChooseK n k = NChooseK n (n - k)"
    by (rule NChooseK_mirror)
  show "NChooseK_loop (n - k) n 1 1 = NChooseK n k" if "symmetric_k n k = k"
    using k that by (simp add: NChooseK_def word_sless_alt word_sle_eq)
  show "NChooseK_loop (n - k) n 1 1 = NChooseK n k"
    if "\<forall>j \<le> nat (sint k). j * (nat (sint n) choose j) \<le> 2147483647"
    using k that by (rule NChooseK_original_k)
qed

text \<open>
  \<open>NChooseK 5 3\<close>, \<open>NChooseK 5 2\<close> and the loop on the original \<open>k = 3\<close> all return 10;
  for \<open>k = 2\<close> the substitution does not fire.
\<close>

theorem NChooseK_symmetric_witness:
  "0 \<le>s (3 :: int32) \<and> 3 \<le>s (5 :: int32) \<and> symmetric_k 5 3 = 2 \<and>
   NChooseK 5 3 = Inr 10 \<and> NChooseK 5 (5 - 3) = Inr 10 \<and>
   NChooseK_loop (5 - 3) 5 1 1 = Inr 10 \<and>
   NChooseK 5 3 = NChooseK 5 (5 - 3) \<and> NChooseK_loop (5 - 3) 5 1 1 = NChooseK 5 3 \<and>
   0 \<le>s (2 :: int32) \<and> 2 \<le>s (5 :: int32) \<and> symmetric_k 5 2 = 2 \<and>
   NChooseK_loop (5 - 2) 5 1 1 = NChooseK 5 2"
proof -
  have h: "0 \<le>s (3 :: int32)" "3 \<le>s (5 :: int32)"
    by (simp_all add: word_sle_eq)
  have h': "0 \<le>s (2 :: int32)" "2 \<le>s (5 :: int32)"
    by (simp_all add: word_sle_eq)
  have "j * (5 choose j) \<le> 2147483647" if "j \<le> 3" for j :: nat
  proof -
    have "j * (5 choose j) \<le> 3 * 2 ^ 5"
      using that binomial_le_pow2 [of 5 j] by (rule mult_le_mono)
    then show ?thesis by simp
  qed
  then have p: "\<forall>j \<le> nat (sint (3 :: int32)). j * (nat (sint (5 :: int32)) choose j) \<le> 2147483647"
    by simp
  have s: "symmetric_k 5 3 = 2"
    by code_simp
  have s': "symmetric_k 5 2 = 2"
    by code_simp
  have v: "NChooseK 5 3 = Inr 10"
    by code_simp
  have v': "NChooseK 5 (5 - 3) = Inr 10"
    by code_simp
  have l: "NChooseK_loop (5 - 3) 5 1 1 = Inr 10"
    by code_simp
  show ?thesis
    using h h' s s' v v' l p NChooseK_symmetric [OF h] NChooseK_symmetric [OF h'] by blast
qed

text \<open>
  Without the bound the second part fails: for \<open>n = 30\<close>, \<open>k = 16\<close> the substitution
  makes \<open>k = 14\<close> and the call returns \<open>C(30, 16) = 145422675\<close>, while the loop on
  \<open>k = 16\<close> forms the product \<open>145422675 * 16\<close> in its 15th iteration, which does not
  fit, and returns \<open>-123012780\<close> when the product wraps.
\<close>

theorem NChooseK_symmetric_counterexample:
  "0 \<le>s (16 :: int32) \<and> 16 \<le>s (30 :: int32) \<and> symmetric_k 30 16 = 14 \<and>
   NChooseK 30 16 = Inr 145422675 \<and>
   NChooseK_loop (30 - 16) 30 1 1 = Inr (- 123012780) \<and>
   NChooseK_run 14 (30 - 16) (30, 1, 1) = Inr (16, 145422675, 15) \<and>
   sint (145422675 * 16 :: int32) = - 1968204496 \<and>
   NChooseK_checked 30 16 = Inr 145422675 \<and>
   NChooseK_loop_checked (30 - 16) 30 1 1 = Inl SignedOverflow \<and>
   (30 :: nat) choose 16 = 145422675"
proof -
  have "NChooseK_checked 30 16 = Inr 145422675"
    by code_simp
  moreover have "NChooseK_loop_checked (30 - 16) 30 1 1 = Inl SignedOverflow"
    by code_simp
  moreover have "symmetric_k 30 16 = 14"
    by code_simp
  moreover have "NChooseK 30 16 = Inr 145422675"
    by code_simp
  moreover have "NChooseK_loop (30 - 16) 30 1 1 = Inr (- 123012780)"
    by code_simp
  moreover have "NChooseK_run 14 (30 - 16) (30, 1, 1) = Inr (16, 145422675, 15)"
    by code_simp
  moreover have "sint (145422675 * 16 :: int32) = - 1968204496"
    by simp
  moreover have "(30 :: nat) choose 16 = 145422675"
    by (simp add: binomial_fact' fact_numeral)
  ultimately show ?thesis
    by (simp add: word_sle_eq)
qed

section \<open>Negative k\<close>

lemma half_at_least:
  assumes "sint k < 0" "sint k \<le> sint (n :: int32)"
  shows "\<not> word_of_int (sint n sdiv 2) <s (k :: int32)"
proof -
  have b: "- 2147483648 \<le> sint n" "sint n < 2147483648"
    using sint_ge [of n] sint_lt [of n] by simp_all
  have "sint n sdiv 2 = (if 0 \<le> sint n then sint n div 2 else - ((- sint n) div 2))"
    by (simp add: signed_divide_int_def sgn_if)
  then have h: "sint k \<le> sint n sdiv 2" "- 2147483648 \<le> sint n sdiv 2" "sint n sdiv 2 < 2147483648"
    using assms b by (auto split: if_splits)
  then have "sint (word_of_int (sint n sdiv 2) :: int32) = sint n sdiv 2"
    by (simp add: signed_of_int signed_take_bit_int_eq_self)
  with h(1) show ?thesis
    by (simp add: word_sless_alt)
qed

lemma checked_int32_fits:
  "- 2147483648 \<le> x \<Longrightarrow> x \<le> 2147483647 \<Longrightarrow> checked_int32 x = Inr (word_of_int x)"
  by (simp add: checked_int32_def)

lemma checked_int32_Inr:
  "checked_int32 x = Inr w \<Longrightarrow> w = word_of_int x \<and> - 2147483648 \<le> x \<and> x \<le> 2147483647"
  by (auto simp: checked_int32_def split: if_splits)

text \<open>
  Where the standard defines the result, the wrapping computation returns the same:
  first for one iteration, then for the loop, then for the function.
\<close>

lemma NChooseK_body_checked_agrees:
  assumes "NChooseK_body_checked i result denom = Inr st"
  shows "NChooseK_body i result denom = Inr st"
proof -
  from assms obtain product q denom' i' where
    p: "checked_int32 (sint result * sint i) = Inr product" and
    d: "denom \<noteq> 0" and
    q: "checked_int32 (sint product sdiv sint denom) = Inr q" and
    d': "checked_int32 (sint denom + 1) = Inr denom'" and
    i': "checked_int32 (sint i - 1) = Inr i'" and
    st: "st = (i', q, denom')"
    by (auto simp: NChooseK_body_checked_def split: sum.splits if_splits)
  have "product = result * i"
    using checked_int32_Inr [OF p] by simp
  moreover have "denom' = denom + 1"
    using checked_int32_Inr [OF d'] by simp
  moreover have "i' = i - 1"
    using checked_int32_Inr [OF i'] by simp
  moreover have quot: "q = word_of_int (sint product sdiv sint denom)"
    and fits: "sint product sdiv sint denom \<le> 2147483647"
    using checked_int32_Inr [OF q] by simp_all
  have "\<not> (product = INT_MIN \<and> denom = - 1)"
  proof
    assume "product = INT_MIN \<and> denom = - 1"
    then have "sint product sdiv sint denom = 2147483648"
      by (simp add: INT_MIN_def)
    with fits show False by simp
  qed
  then have "div_int32 product denom = Inr q"
    using d quot by (auto simp: div_int32_def)
  ultimately show ?thesis
    using st by (simp add: NChooseK_body_def)
qed

lemma NChooseK_loop_checked_agrees:
  "NChooseK_loop_checked bound i result denom = Inr r \<Longrightarrow>
   NChooseK_loop bound i result denom = Inr r"
proof (induction bound i result denom rule: NChooseK_loop_checked.induct)
  case (1 bound i result denom)
  show ?case
  proof (cases "bound <s i")
    case True
    with "1.prems" obtain i' result' denom' where
      body: "NChooseK_body_checked i result denom = Inr (i', result', denom')" and
      rest: "NChooseK_loop_checked bound i' result' denom' = Inr r"
      by (subst (asm) NChooseK_loop_checked.simps) (auto split: sum.splits)
    from "1.IH" [OF True body refl refl rest]
    have "NChooseK_loop bound i' result' denom' = Inr r" .
    with True NChooseK_body_checked_agrees [OF body] show ?thesis
      by (subst NChooseK_loop.simps) simp
  next
    case False
    with "1.prems" have "r = result"
      by (subst (asm) NChooseK_loop_checked.simps) simp
    with False show ?thesis
      by (subst NChooseK_loop.simps) simp
  qed
qed

lemma NChooseK_checked_agrees:
  assumes "NChooseK_checked n k = Inr r"
  shows "NChooseK n k = Inr r"
proof (cases "n <s k")
  case True
  with assms show ?thesis
    by (simp add: NChooseK_checked_def NChooseK_def)
next
  case False
  with assms obtain bound where
    b: "checked_int32 (sint n - sint (symmetric_k n k)) = Inr bound" and
    l: "NChooseK_loop_checked bound n 1 1 = Inr r"
    by (auto simp: NChooseK_checked_def Let_def split: sum.splits)
  have "bound = n - symmetric_k n k"
    using checked_int32_Inr [OF b] by simp
  with False NChooseK_loop_checked_agrees [OF l] show ?thesis
    by (simp add: NChooseK_def)
qed

lemma symmetric_k_fits:
  assumes "\<not> n <s k" "word_of_int (sint n sdiv 2) <s (k :: int32)"
  shows "sint (n - k) = sint n - sint k" and "0 \<le> sint n - sint k"
proof -
  have b: "- 2147483648 \<le> sint n" "sint n < 2147483648" "sint k < 2147483648"
    using sint_ge [of n] sint_lt [of n] sint_lt [of k] by simp_all
  have half: "sint n sdiv 2 = (if 0 \<le> sint n then sint n div 2 else - ((- sint n) div 2))"
    by (simp add: signed_divide_int_def sgn_if)
  then have "- 2147483648 \<le> sint n sdiv 2" "sint n sdiv 2 < 2147483648"
    using b by (auto split: if_splits)
  then have "sint (word_of_int (sint n sdiv 2) :: int32) = sint n sdiv 2"
    by (simp add: signed_of_int signed_take_bit_int_eq_self)
  with assms have "sint n sdiv 2 < sint k" and le: "sint k \<le> sint n"
    by (simp_all add: word_sless_alt)
  with half have "0 < sint k"
    by (auto split: if_splits)
  with le b show "sint (n - k) = sint n - sint k" and "0 \<le> sint n - sint k"
    by (simp_all add: sint_word_ariths signed_take_bit_int_eq_self)
qed

text \<open>
  Claim C10, amended. For 32-bit integers with \<open>k < 0\<close>, \<open>k \<le> n\<close> and \<open>n - k\<close> not
  above the largest 32-bit signed integer, \<open>NChooseK n k\<close> returns 1: neither test
  fires, the subtraction \<open>n - k\<close> fits and the loop body is not entered. This holds for
  the wrapping computation and under the rule of the standard alike.
\<close>

theorem NChooseK_negative_k:
  "k <s 0 \<Longrightarrow> k \<le>s n \<Longrightarrow> sint n - sint k \<le> 2147483647 \<Longrightarrow>
   NChooseK n k = Inr 1 \<and> NChooseK_checked n k = Inr 1"
proof -
  assume "k <s 0" and "k \<le>s n" and fits: "sint n - sint k \<le> 2147483647"
  then have k: "sint k < 0" and kn: "sint k \<le> sint n"
    by (simp_all add: word_sless_alt word_sle_eq)
  have guard: "\<not> n <s k"
    using kn by (simp add: word_sless_alt)
  have sym: "symmetric_k n k = k"
    using half_at_least [OF k kn] by (simp add: symmetric_k_def)
  have "checked_int32 (sint n - sint k) = Inr (word_of_int (sint n - sint k))"
    using fits k kn sint_ge [of n] by (intro checked_int32_fits) simp_all
  then have bound: "checked_int32 (sint n - sint k) = Inr (n - k)"
    by simp
  have "sint (n - k) = sint n - sint k"
    using fits k kn sint_ge [of n]
    by (simp add: sint_word_ariths signed_take_bit_int_eq_self)
  then have exit: "\<not> (n - k) <s n"
    using k by (simp add: word_sless_alt)
  then have "NChooseK_loop (n - k) n 1 1 = Inr 1"
    by (subst NChooseK_loop.simps) simp
  then have "NChooseK n k = Inr 1"
    using guard sym by (simp add: NChooseK_def)
  moreover have "NChooseK_loop_checked (n - k) n 1 1 = Inr 1"
    using exit by (subst NChooseK_loop_checked.simps) simp
  then have "NChooseK_checked n k = Inr 1"
    using guard sym bound by (simp add: NChooseK_checked_def)
  ultimately show ?thesis ..
qed

text \<open>
  \<open>NChooseK 5 (-2)\<close> is 1.
\<close>

theorem NChooseK_negative_k_witness:
  "(- 2 :: int32) <s 0 \<and> (- 2 :: int32) \<le>s 5 \<and>
   sint (5 :: int32) - sint (- 2 :: int32) = 7 \<and>
   NChooseK 5 (- 2) = Inr 1 \<and> NChooseK_checked 5 (- 2) = Inr 1"
proof -
  have h: "(- 2 :: int32) <s 0" "(- 2 :: int32) \<le>s 5"
    "sint (5 :: int32) - sint (- 2 :: int32) \<le> 2147483647"
    by (simp_all add: word_sless_alt word_sle_eq)
  from NChooseK_negative_k [OF h] h show ?thesis
    by simp
qed

lemma div_int32_zero: "denom \<noteq> 0 \<Longrightarrow> div_int32 0 denom = Inr 0"
  by (simp add: div_int32_def INT_MIN_def)

lemma NChooseK_loop_zero:
  "1 \<le> uint denom \<Longrightarrow> uint denom + (sint i - sint bound) \<le> 4294967296 \<Longrightarrow>
   NChooseK_loop bound i 0 denom = Inr 0"
proof (induction "nat (sint i - sint bound)" arbitrary: i denom)
  case 0
  then have "\<not> bound <s i"
    by (simp add: word_sless_alt)
  then show ?case
    by (subst NChooseK_loop.simps) simp
next
  case (Suc t)
  then have guard: "bound <s i" and less: "sint bound < sint i"
    by (simp_all add: word_sless_alt)
  have "sint (i - 1) = sint i - 1"
    using less sint_ge [of bound] sint_lt [of i]
    by (simp add: sint_word_ariths signed_take_bit_int_eq_self)
  then have t: "t = nat (sint (i - 1) - sint bound)"
    using Suc.hyps(2) by simp
  have "denom \<noteq> 0"
    using Suc.prems(1) by auto
  then have body: "NChooseK_body i 0 denom = Inr (i - 1, 0, denom + 1)"
    by (simp add: NChooseK_body_def div_int32_zero)
  have "NChooseK_loop bound (i - 1) 0 (denom + 1) = Inr 0"
  proof (cases t)
    case 0
    with t have "\<not> bound <s i - 1"
      by (simp add: word_sless_alt)
    then show ?thesis
      by (subst NChooseK_loop.simps) simp
  next
    case (Suc t')
    with t \<open>sint (i - 1) = sint i - 1\<close> have "2 \<le> sint i - sint bound"
      by simp
    with Suc.prems have "0 \<le> uint denom + 1" and "uint denom + 1 < 4294967296"
      by simp_all
    then have "uint (denom + 1) = uint denom + 1"
      by (simp add: uint_word_ariths take_bit_int_eq_self)
    with Suc.prems \<open>sint (i - 1) = sint i - 1\<close> show ?thesis
      by (intro Suc.hyps(1) [OF t]) simp_all
  qed
  with guard body show ?case
    by (subst NChooseK_loop.simps) simp
qed

text \<open>
  For \<open>n = 0\<close> and \<open>k\<close> the least 32-bit integer, \<open>n - k\<close> is \<open>2147483648\<close> and does
  not fit: the standard gives the call no result, so the code does not fix the value 1
  there. Where the subtraction wraps, the bound is the least integer again, the loop is
  entered, its first iteration multiplies by \<open>i = 0\<close>, and the call returns 0.
\<close>

theorem NChooseK_negative_k_counterexample:
  "INT_MIN <s 0 \<and> INT_MIN \<le>s 0 \<and> sint INT_MIN = - 2147483648 \<and>
   sint (0 :: int32) - sint INT_MIN = 2147483648 \<and>
   NChooseK_checked 0 INT_MIN = Inl SignedOverflow \<and>
   NChooseK 0 INT_MIN = Inr 0"
proof -
  have s: "sint INT_MIN = - 2147483648"
    by (simp add: INT_MIN_def)
  have k: "symmetric_k 0 INT_MIN = INT_MIN"
    by (simp add: symmetric_k_def word_sless_alt s)
  have b: "(0 :: int32) - INT_MIN = INT_MIN"
    by (simp add: INT_MIN_def)
  have body: "NChooseK_body 0 1 1 = Inr (- 1, 0, 2)"
    by (simp add: NChooseK_body_def div_int32_def INT_MIN_def)
  have rest: "NChooseK_loop INT_MIN (- 1) 0 2 = Inr 0"
    by (rule NChooseK_loop_zero) (simp_all add: s)
  have "INT_MIN <s 0"
    by (simp add: word_sless_alt s)
  then have "NChooseK_loop INT_MIN 0 1 1 = Inr 0"
    by (subst NChooseK_loop.simps) (simp only: body rest if_True sum.case prod.case)
  moreover have guard: "\<not> (0 :: int32) <s INT_MIN"
    by (simp add: word_sless_alt s)
  ultimately have wrapping: "NChooseK 0 INT_MIN = Inr 0"
    by (simp only: NChooseK_def k b Let_def if_False)
  have "checked_int32 (sint (0 :: int32) - sint INT_MIN) = Inl SignedOverflow"
    by (simp add: checked_int32_def s)
  then have "NChooseK_checked 0 INT_MIN = Inl SignedOverflow"
    using guard by (simp only: NChooseK_checked_def k Let_def if_False sum.case)
  with wrapping s show ?thesis
    by (simp add: word_sless_alt word_sle_eq)
qed

end
